theory Spec2Isabelle
  imports Complex_Main "HOL-Library.AList"
begin

section \<open>Values, exceptions and effects\<close>

text \<open>
  Python values that travel through the trace generator are JSON-shaped: the rows of
  the dataset, the bodies returned by the inference endpoint, the agent transcripts and
  the lines of the output file. \<open>JNull\<close> is Python's \<open>None\<close>, which the script also uses
  as its failure sentinel. A dictionary is an association list read with \<open>map_of\<close>
  and written with \<open>AList.update\<close>.
\<close>

datatype json =
    JNull
  | JBool bool
  | JInt int
  | JFloat rat
  | JStr string
  | JList "json list"
  | JDict "(string \<times> json) list"

text \<open>
  The exceptions the script can meet. \<open>JSONDecodeError\<close> is what \<open>json.loads\<close> raises on
  text that is not JSON, \<open>RecursionError\<close> and \<open>ValueError\<close> what it raises on nesting
  that is too deep and on an integer with too many digits. \<open>UnicodeDecodeError\<close> comes
  from reading bytes that are not UTF-8, \<open>UnicodeEncodeError\<close> from encoding a string
  with a lone surrogate, \<open>KeyError\<close> and \<open>TypeError\<close> from subscripting,
  \<open>ValueError\<close> also from \<open>asyncio.wait\<close> on an empty set and from a rejected
  configuration, and \<open>OtherError\<close> stands for any other subclass of \<open>Exception\<close>
  raised by a collaborator (network, agent framework, file system).
\<close>

datatype exn =
    JSONDecodeError | RecursionError | UnicodeDecodeError | UnicodeEncodeError
  | KeyError | TypeError | ValueError | OtherError

text \<open>\<open>data[key]\<close> with a string key: only a dictionary holding the key answers.\<close>

fun subscript :: "json \<Rightarrow> string \<Rightarrow> exn + json" where
  "subscript (JDict d) k = (case map_of d k of None \<Rightarrow> Inl KeyError | Some v \<Rightarrow> Inr v)"
| "subscript _ k = Inl TypeError"

section \<open>The retrying request executor\<close>

text \<open>
  One call of \<open>session.post\<close> followed by \<open>response.json(content_type=None)\<close>: either
  the post raises some exception, or a response with a status code arrives whose body either parses
  (\<open>Some\<close>) or makes \<open>response.json\<close> raise (\<open>None\<close>). The session is built without
  \<open>raise_for_status\<close>, and the function never looks at the status.
\<close>

datatype http_outcome = PostRaises exn | Response nat "json option"

fun attempt :: "http_outcome \<Rightarrow> exn + json" where
  "attempt (PostRaises e) = Inl e"
| "attempt (Response status None) = Inl JSONDecodeError"
| "attempt (Response status (Some body)) = Inr body"

text \<open>What the function does besides returning: sleeps (in seconds), posts and prints.\<close>

datatype effect = Sleep rat | Post | Print

text \<open>\<open>random.uniform(a, b)\<close> is \<open>a + (b - a) * random()\<close>, with \<open>random()\<close> in \<open>[0, 1)\<close>.\<close>

definition uniform :: "rat \<Rightarrow> rat \<Rightarrow> rat \<Rightarrow> rat" where
  "uniform a b u = a + (b - a) * u"

text \<open>
  The \<open>while retry_budget > 0\<close> loop. \<open>rnd k\<close> is the \<open>k\<close>-th draw of \<open>random()\<close> and
  \<open>post k\<close> the outcome of the \<open>k\<close>-th request; the loop returns the effects in order,
  the budget that is left and the value returned.
\<close>

function retry_loop ::
  "(nat \<Rightarrow> rat) \<Rightarrow> (nat \<Rightarrow> http_outcome) \<Rightarrow> int \<Rightarrow> nat \<Rightarrow> effect list
     \<Rightarrow> effect list \<times> int \<times> json" where
  "retry_loop rnd post retry_budget k eff =
     (if retry_budget > 0 then
        (case attempt (post k) of
           Inr body \<Rightarrow> (eff @ [Sleep (uniform 0 (1 / 10) (rnd k)), Post], retry_budget, body)
         | Inl e \<Rightarrow>
             retry_loop rnd post (retry_budget - 1) (Suc k)
               (eff @ [Sleep (uniform 0 (1 / 10) (rnd k)), Post, Print, Sleep 10]))
      else (eff, retry_budget, JNull))"
  by pat_completeness auto
termination
  by (relation "measure (\<lambda>(rnd, post, retry_budget, k, eff). nat retry_budget)") auto

declare retry_loop.simps [simp del]

definition generate_completion_from_messages ::
  "(nat \<Rightarrow> rat) \<Rightarrow> (nat \<Rightarrow> http_outcome) \<Rightarrow> effect list \<times> int \<times> json" where
  "generate_completion_from_messages rnd post = retry_loop rnd post 10 0 []"

text \<open>The effects of one failed round: jitter, request, message, backoff.\<close>

definition failed_round :: "(nat \<Rightarrow> rat) \<Rightarrow> nat \<Rightarrow> effect list" where
  "failed_round rnd i = [Sleep (uniform 0 (1 / 10) (rnd i)), Post, Print, Sleep 10]"

definition raises :: "http_outcome \<Rightarrow> bool" where
  "raises r = (case attempt r of Inl e \<Rightarrow> True | Inr body \<Rightarrow> False)"

section \<open>Processing one dataset row\<close>

text \<open>The command-line arguments the model reads.\<close>

record args =
  prompt_column :: string
  uuid_column :: string
  num_generations :: int
  max_concurrent :: int

text \<open>
  One agent run as \<open>get_agent_run\<close> sees it: building the \<open>CodeAgent\<close> may raise
  (that happens outside the \<open>try\<close>), \<open>agent.run\<close> or \<open>write_memory_to_messages\<close> may
  raise inside it, or the transcript is returned.
\<close>

datatype agent_outcome = ConstructorRaises exn | RunRaises exn | Messages json

fun get_agent_run :: "agent_outcome \<Rightarrow> exn + json" where
  "get_agent_run (ConstructorRaises e) = Inl e"
| "get_agent_run (RunRaises e) = Inr JNull"
| "get_agent_run (Messages m) = Inr m"

text \<open>\<open>asyncio.gather\<close> of awaitables that run in order: the first exception, or all results.\<close>

fun gather :: "(exn + 'a) list \<Rightarrow> exn + 'a list" where
  "gather [] = Inr []"
| "gather (Inl e # rs) = Inl e"
| "gather (Inr x # rs) = (case gather rs of Inl e \<Rightarrow> Inl e | Inr xs \<Rightarrow> Inr (x # xs))"

text \<open>
  A line of the output file is represented by what reading it and \<open>json.loads\<close> make
  of it: \<open>Unreadable e\<close> when the iteration over the file raises \<open>e\<close> on reaching it
  (\<open>UnicodeDecodeError\<close> on bytes that are not UTF-8), \<open>LoadsRaises e\<close> when it is read and
  \<open>json.loads\<close> raises \<open>e\<close> on it, \<open>Parsed v\<close> when \<open>json.loads\<close> returns \<open>v\<close>. The line
  that \<open>json.dumps(result) + "\n"\<close> appends is read back as \<open>result\<close>.
\<close>

datatype line = Unreadable exn | LoadsRaises exn | Parsed json

text \<open>
  \<open>{**example, "generations": ..., "finish_reasons": ..., "api_metadata": ...}\<close>
\<close>

definition build_result :: "(string \<times> json) list \<Rightarrow> json list \<Rightarrow> (string \<times> json) list" where
  "build_result example agent_runs =
     AList.update ''api_metadata'' (JList (map (\<lambda>r. JNull) agent_runs))
       (AList.update ''finish_reasons'' (JList (map (\<lambda>r. JNull) agent_runs))
         (AList.update ''generations'' (JList agent_runs) example))"

text \<open>
  \<open>process_example\<close>: \<open>agent i\<close> is the outcome of the \<open>i\<close>-th of the
  \<open>num_generations\<close> agent runs, \<open>write_raises\<close> says whether serialising or opening the
  file raises (an append that raises leaves the file as it was). The prompt is formatted before the \<open>try\<close>, so a row without the prompt
  column raises out of the function; everything else ends in the \<open>except\<close> branch and
  returns \<open>None\<close>. The function returns its result and the output file.
\<close>

definition process_example ::
  "args \<Rightarrow> (nat \<Rightarrow> agent_outcome) \<Rightarrow> bool \<Rightarrow> (string \<times> json) list \<Rightarrow> line list
     \<Rightarrow> (exn + json) \<times> line list" where
  "process_example a agent write_raises example output_file =
     (case subscript (JDict example) (prompt_column a) of
        Inl e \<Rightarrow> (Inl e, output_file)
      | Inr prompt \<Rightarrow>
          (case gather (map (\<lambda>i. get_agent_run (agent i)) [0 ..< nat (num_generations a)]) of
             Inl e \<Rightarrow> (Inr JNull, output_file)
           | Inr agent_runs \<Rightarrow>
               if JNull \<in> set agent_runs then (Inr JNull, output_file)
               else if write_raises then (Inr JNull, output_file)
               else (Inr (JDict (build_result example agent_runs)),
                     output_file @ [Parsed (JDict (build_result example agent_runs))])))"

section \<open>The startup scan\<close>

text \<open>
  \<open>hashlib.md5(str(data[uuid_column]).encode()).hexdigest()\<close> for a parsed line, and
  for a row of the dataset in \<open>main\<close>. \<open>digest\<close> stands for
  \<open>hashlib.md5(str(v).encode()).hexdigest()\<close>, which raises when the string cannot be
  encoded.
\<close>

definition uuid_of :: "(json \<Rightarrow> exn + 'k) \<Rightarrow> string \<Rightarrow> json \<Rightarrow> exn + 'k" where
  "uuid_of digest col data =
     (case subscript data col of Inl e \<Rightarrow> Inl e | Inr v \<Rightarrow> digest v)"

text \<open>
  The loop of \<open>load_processed_uuids\<close> over the lines, with the set built so far. The
  iteration \<open>async for line in f\<close> is outside the \<open>try\<close>, and inside it only
  \<open>json.JSONDecodeError\<close> is caught: every other exception of \<open>json.loads\<close>, of
  \<open>data[uuid_column]\<close> and of the digest ends the scan.
\<close>

fun scan_lines :: "(json \<Rightarrow> exn + 'k) \<Rightarrow> string \<Rightarrow> line list \<Rightarrow> 'k set \<Rightarrow> exn + 'k set" where
  "scan_lines digest col [] processed_uuids = Inr processed_uuids"
| "scan_lines digest col (Unreadable e # ls) processed_uuids = Inl e"
| "scan_lines digest col (LoadsRaises e # ls) processed_uuids =
     (if e = JSONDecodeError then scan_lines digest col ls processed_uuids else Inl e)"
| "scan_lines digest col (Parsed data # ls) processed_uuids =
     (case uuid_of digest col data of
        Inl e \<Rightarrow> Inl e
      | Inr uuid \<Rightarrow> scan_lines digest col ls (insert uuid processed_uuids))"

text \<open>
  The output file is \<open>None\<close> when the path does not exist. A file that exists is taken
  to open for reading; the function then depends on its lines only.
\<close>

definition load_processed_uuids ::
  "(json \<Rightarrow> exn + 'k) \<Rightarrow> line list option \<Rightarrow> string \<Rightarrow> exn + 'k set" where
  "load_processed_uuids digest output_file col =
     (case output_file of None \<Rightarrow> Inr {} | Some ls \<Rightarrow> scan_lines digest col ls {})"

text \<open>
  A line holds a key when it parses to a dictionary with the column whose value can be
  digested. The keys held by a file, one per such line, in file order, are the
  vocabulary in which the properties of the store are stated.
\<close>

fun keyed :: "(json \<Rightarrow> exn + 'k) \<Rightarrow> string \<Rightarrow> line \<Rightarrow> bool" where
  "keyed digest col (Parsed data) =
     (case uuid_of digest col data of Inl e \<Rightarrow> False | Inr uuid \<Rightarrow> True)"
| "keyed digest col l = False"

fun store_keys :: "(json \<Rightarrow> exn + 'k) \<Rightarrow> string \<Rightarrow> line list \<Rightarrow> 'k list" where
  "store_keys digest col [] = []"
| "store_keys digest col (Parsed data # ls) =
     (case uuid_of digest col data of
        Inl e \<Rightarrow> store_keys digest col ls
      | Inr uuid \<Rightarrow> uuid # store_keys digest col ls)"
| "store_keys digest col (l # ls) = store_keys digest col ls"

text \<open>The exception that one line makes the loop body or the iteration raise, if any.\<close>

fun line_error :: "(json \<Rightarrow> exn + 'k) \<Rightarrow> string \<Rightarrow> line \<Rightarrow> exn option" where
  "line_error digest col (Unreadable e) = Some e"
| "line_error digest col (LoadsRaises e) = (if e = JSONDecodeError then None else Some e)"
| "line_error digest col (Parsed data) =
     (case uuid_of digest col data of Inl e \<Rightarrow> Some e | Inr uuid \<Rightarrow> None)"

section \<open>Reward functions\<close>

text \<open>
  The module \<open>open_r1.rewards\<close> is not among the sources; only its tests are. The
  scorers below follow the specification's description of them, with exact rational
  arithmetic in place of floating point, and the tests are embedded as predicates on an
  arbitrary implementation. Where the values the tests assert contradict the
  specification's formula, a second scorer follows the tests.
\<close>

text \<open>ASCII lower-casing and Python's whitespace, for \<open>str.lower\<close> and \<open>str.split\<close>.\<close>

definition lower_char :: "char \<Rightarrow> char" where
  "lower_char c =
     (if 65 \<le> (of_char c :: nat) \<and> (of_char c :: nat) \<le> 90
      then char_of (of_char c + 32 :: nat) else c)"

definition is_space :: "char \<Rightarrow> bool" where
  "is_space c = ((of_char c :: nat) \<in> {9, 10, 11, 12, 13, 28, 29, 30, 31, 32})"

fun words_from :: "string \<Rightarrow> string \<Rightarrow> string list" where
  "words_from cur [] = (if cur = [] then [] else [cur])"
| "words_from cur (c # cs) =
     (if is_space c then (if cur = [] then words_from [] cs else cur # words_from [] cs)
      else words_from (cur @ [c]) cs)"

definition split_words :: "string \<Rightarrow> string list" where
  "split_words s = words_from [] s"

text \<open>The contiguous runs of \<open>n\<close> tokens, one per starting position.\<close>

definition ngrams :: "nat \<Rightarrow> 'a list \<Rightarrow> 'a list list" where
  "ngrams n ws = map (\<lambda>i. take n (drop i ws)) [0 ..< Suc (length ws) - n]"

text \<open>
  Modelled from the spec: the scorer returned by \<open>get_repetition_penalty_reward\<close>, whose
  source is missing. The specification has it lower-case the completion, score 0.0 when
  there are fewer than \<open>ngram_size\<close> whitespace-delimited words, and otherwise scale
  \<open>max_penalty\<close> by one minus the ratio of unique to total n-grams.
\<close>

definition repetition_penalty_reward :: "nat \<Rightarrow> rat \<Rightarrow> string list \<Rightarrow> rat list" where
  "repetition_penalty_reward ngram_size max_penalty completions =
     map (\<lambda>completion.
        let ws = split_words (map lower_char completion) in
        if length ws < ngram_size then 0
        else max_penalty *
          (1 - of_nat (length (remdups (ngrams ngram_size ws)))
                 / of_nat (length (ngrams ngram_size ws))))
      completions"

text \<open>
  Modelled from the spec: \<open>get_repetition_penalty_reward\<close>, whose source is missing. The
  specification has the construction fail with a configuration error on a non-negative
  \<open>max_penalty\<close>, before any scoring; otherwise it returns the scorer.
\<close>

definition get_repetition_penalty_reward ::
  "nat \<Rightarrow> rat \<Rightarrow> exn + (string list \<Rightarrow> rat list)" where
  "get_repetition_penalty_reward ngram_size max_penalty =
     (if 0 \<le> max_penalty then Inl ValueError
      else Inr (repetition_penalty_reward ngram_size max_penalty))"

text \<open>
  Modelled from the spec: \<open>reasoning_steps_reward\<close>, whose source is missing. The
  specification fixes the formula and leaves the step-detection rule open, so the count
  of recognised step markers is a parameter.
\<close>

definition reasoning_steps_reward :: "(string \<Rightarrow> nat) \<Rightarrow> string list \<Rightarrow> rat list" where
  "reasoning_steps_reward count_steps completions =
     map (\<lambda>completion. min 1 (of_nat (count_steps completion) / 3)) completions"

text \<open>
  The tests of \<open>TestRepetitionPenaltyReward\<close>, each as the condition under which it
  passes for an implementation \<open>impl\<close> of \<open>get_repetition_penalty_reward\<close>. A completion
  \<open>[{"content": c}]\<close> is represented by \<open>c\<close>; the message of the error is not modelled.
  Three of them follow here, the others after \<open>assertAlmostEqual\<close>.
\<close>

definition test_positive_max_penalty_raises_value_error ::
  "(nat \<Rightarrow> rat \<Rightarrow> exn + (string list \<Rightarrow> rat list)) \<Rightarrow> bool" where
  "test_positive_max_penalty_raises_value_error impl =
     (impl 2 1 = Inl ValueError \<and> impl 2 (3 / 2) = Inl ValueError)"



text \<open>
  \<open>assertAlmostEqual(first, second, places)\<close>, seven places when none are given:
  \<open>round(abs(first - second), places) == 0\<close>.
\<close>

definition almost_equal :: "nat \<Rightarrow> rat \<Rightarrow> rat \<Rightarrow> bool" where
  "almost_equal places first second = (\<bar>first - second\<bar> * 10 ^ places \<le> 1 / 2)"

text \<open>
  \<open>test_reasoning_steps_reward\<close> of \<open>TestRewards\<close>, for an implementation \<open>impl\<close> of
  \<open>reasoning_steps_reward\<close>: each content is scored on its own and the first reward is
  compared with the expected one.
\<close>

definition reasoning_steps_test_cases :: "(string \<times> rat) list" where
  "reasoning_steps_test_cases =
     [(''Step 1: First step\<newline>Step 2: Second step\<newline>Step 3: Third step'', 1),
      (''First, we do this.\<newline>Second, we do that.\<newline>Finally, we conclude.'', 1),
      (''Step 1: Only step'', 1 / 3),
      (''First, we do this.\<newline>Finally, we conclude.'', 2 / 3),
      (''Just plain text without any clear steps'', 0)]"

definition test_reasoning_steps_reward :: "(string list \<Rightarrow> rat list) \<Rightarrow> bool" where
  "test_reasoning_steps_reward impl =
     list_all (\<lambda>(content, expected_reward).
        case impl [content] of
          [] \<Rightarrow> False
        | reward # rewards \<Rightarrow> almost_equal 7 reward expected_reward)
       reasoning_steps_test_cases"




















section \<open>The bounded batch runner\<close>

text \<open>
  What \<open>main\<close> gets from outside: \<open>digest_of\<close> stands for
  \<open>hashlib.md5(str(v).encode()).hexdigest()\<close> (an exception when the string cannot be
  encoded), \<open>agent_of t i\<close> is the outcome of the
  \<open>i\<close>-th agent run of the \<open>t\<close>-th task created, and \<open>write_raises_of t\<close> says whether
  the append of that task raises.
\<close>

record 'k env =
  digest_of :: "json \<Rightarrow> exn + 'k"
  agent_of :: "nat \<Rightarrow> nat \<Rightarrow> agent_outcome"
  write_raises_of :: "nat \<Rightarrow> bool"

text \<open>\<open>hashlib.md5(str(example[args.uuid_column]).encode()).hexdigest()\<close>\<close>

definition example_uuid :: "'k env \<Rightarrow> args \<Rightarrow> (string \<times> json) list \<Rightarrow> exn + 'k" where
  "example_uuid env a example = uuid_of (digest_of env) (uuid_column a) (JDict example)"

text \<open>
  Where \<open>main\<close> stands: in the \<open>for\<close> loop over the dataset, suspended in
  \<open>asyncio.wait\<close> or in the final \<open>asyncio.gather\<close> (each with the tasks it was
  called on), past the loop, or stopped by an exception.
\<close>

datatype phase = Iterating | Waiting "nat set" | Draining "nat set" | Finished | Crashed exn

text \<open>
  The state of a run. Tasks are numbered in the order of their creation, and
  \<open>scheduled\<close> holds the row of each. \<open>active_tasks\<close> is the set object the local
  variable of that name refers to; \<open>asyncio.wait\<close> returns a fresh set to which the
  variable is rebound, so \<open>set_id\<close> counts the rebindings and \<open>callback_set t\<close> records
  the object whose \<open>discard\<close> was registered as the done-callback of task \<open>t\<close>.
  \<open>running\<close> are the tasks not yet done, \<open>uncalled\<close> the done tasks whose callback has
  not run yet, \<open>out_file\<close> the lines of the output file.
\<close>

record state =
  todo :: "(string \<times> json) list list"
  scheduled :: "(string \<times> json) list list"
  active_tasks :: "nat set"
  set_id :: nat
  callback_set :: "nat \<Rightarrow> nat"
  running :: "nat set"
  uncalled :: "nat set"
  out_file :: "line list"
  phase :: phase

text \<open>
  The timing of a run is a list of events: \<open>Main\<close> lets the coroutine \<open>main\<close> take its
  next step (which does nothing while it is blocked in an \<open>await\<close>), \<open>Done t\<close> lets task
  \<open>t\<close> run \<open>process_example\<close> to its end, \<open>Callback t\<close> lets the event loop call the
  done-callback of task \<open>t\<close>. Every interleaving the event loop can produce is such a
  list; the lists also allow what the event loop never does (a task that completes
  while \<open>main\<close> is not suspended, or after \<open>main\<close> has raised and its tasks are
  cancelled), so what holds for every list holds for every run. Awaiting the tasks that
  \<open>asyncio.wait\<close> reports as done only prints, and is left out.
\<close>

datatype event = Main | Done nat | Callback nat

text \<open>\<open>asyncio.create_task\<close>, \<open>active_tasks.add\<close> and \<open>add_done_callback\<close>.\<close>

definition schedule :: "(string \<times> json) list \<Rightarrow> state \<Rightarrow> state" where
  "schedule example s =
     s\<lparr>todo := tl (todo s),
       scheduled := scheduled s @ [example],
       active_tasks := insert (length (scheduled s)) (active_tasks s),
       callback_set := (callback_set s)(length (scheduled s) := set_id s),
       running := insert (length (scheduled s)) (running s)\<rparr>"

text \<open>
  One round of the \<open>while\<close> loop. The call of \<open>asyncio.wait\<close> raises \<open>ValueError\<close> on an
  empty set and otherwise suspends \<open>main\<close> on the tasks of the set.
\<close>

definition wait_first_completed :: "state \<Rightarrow> state" where
  "wait_first_completed s =
     (if active_tasks s = {} then s\<lparr>phase := Crashed ValueError\<rparr>
      else s\<lparr>phase := Waiting (active_tasks s)\<rparr>)"

text \<open>
  \<open>asyncio.wait\<close> on the tasks \<open>fs\<close> stays suspended while none of them is done, and then
  returns the pending ones as a new set, to which \<open>active_tasks\<close> is rebound.
\<close>

definition wait_returns :: "nat set \<Rightarrow> state \<Rightarrow> state" where
  "wait_returns fs s =
     (if fs \<subseteq> running s then s
      else s\<lparr>active_tasks := fs \<inter> running s, set_id := Suc (set_id s),
             phase := Iterating\<rparr>)"

definition main_step :: "'k env \<Rightarrow> args \<Rightarrow> 'k set \<Rightarrow> state \<Rightarrow> state" where
  "main_step env a processed_uuids s =
     (case phase s of
        Iterating \<Rightarrow>
          (case todo s of
             [] \<Rightarrow>
               if active_tasks s = {} then s\<lparr>phase := Finished\<rparr>
               else s\<lparr>phase := Draining (active_tasks s)\<rparr>
           | example # rest \<Rightarrow>
               (case example_uuid env a example of
                  Inl e \<Rightarrow> s\<lparr>phase := Crashed e\<rparr>
                | Inr uuid \<Rightarrow>
                    if uuid \<in> processed_uuids then s\<lparr>todo := rest\<rparr>
                    else if max_concurrent a \<le> int (card (active_tasks s))
                    then wait_first_completed s
                    else schedule example s))
      | Waiting fs \<Rightarrow> wait_returns fs s
      | Draining fs \<Rightarrow> if fs \<inter> running s = {} then s\<lparr>phase := Finished\<rparr> else s
      | Finished \<Rightarrow> s
      | Crashed e \<Rightarrow> s)"

text \<open>Task \<open>t\<close> completes: \<open>process_example\<close> has run on its row.\<close>

definition task_done :: "'k env \<Rightarrow> args \<Rightarrow> nat \<Rightarrow> state \<Rightarrow> state" where
  "task_done env a t s =
     (if t \<in> running s \<and> t < length (scheduled s) then
        s\<lparr>out_file :=
            snd (process_example a (agent_of env t) (write_raises_of env t)
                   (scheduled s ! t) (out_file s)),
          running := running s - {t},
          uncalled := insert t (uncalled s)\<rparr>
      else s)"

text \<open>The done-callback of task \<open>t\<close>: \<open>discard\<close> on the set it was registered with.\<close>

definition done_callback :: "nat \<Rightarrow> state \<Rightarrow> state" where
  "done_callback t s =
     (if t \<in> uncalled s then
        s\<lparr>uncalled := uncalled s - {t},
          active_tasks :=
            (if callback_set s t = set_id s then active_tasks s - {t} else active_tasks s)\<rparr>
      else s)"

fun step :: "'k env \<Rightarrow> args \<Rightarrow> 'k set \<Rightarrow> event \<Rightarrow> state \<Rightarrow> state" where
  "step env a processed_uuids Main s = main_step env a processed_uuids s"
| "step env a processed_uuids (Done t) s = task_done env a t s"
| "step env a processed_uuids (Callback t) s = done_callback t s"

fun run :: "'k env \<Rightarrow> args \<Rightarrow> 'k set \<Rightarrow> event list \<Rightarrow> state \<Rightarrow> state" where
  "run env a processed_uuids [] s = s"
| "run env a processed_uuids (e # es) s =
     run env a processed_uuids es (step env a processed_uuids e s)"

text \<open>The output file is created empty when it does not exist.\<close>

definition initial :: "(string \<times> json) list list \<Rightarrow> line list option \<Rightarrow> state" where
  "initial dataset output_file =
     \<lparr>todo = dataset, scheduled = [], active_tasks = {}, set_id = 0,
      callback_set = (\<lambda>t. 0), running = {}, uncalled = {},
      out_file = (case output_file of None \<Rightarrow> [] | Some ls \<Rightarrow> ls),
      phase = Iterating\<rparr>"

text \<open>
  \<open>main\<close> on an output file and the loaded, shuffled and filtered dataset, under a timing:
  the startup scan, then the loop.
\<close>

definition main ::
  "'k env \<Rightarrow> args \<Rightarrow> line list option \<Rightarrow> (string \<times> json) list list \<Rightarrow> event list \<Rightarrow> state"
  where
  "main env a output_file dataset events =
     (case load_processed_uuids (digest_of env) output_file (uuid_column a) of
        Inl e \<Rightarrow> (initial dataset output_file)\<lparr>phase := Crashed e\<rparr>
      | Inr processed_uuids \<Rightarrow>
          run env a processed_uuids events (initial dataset output_file))"

text \<open>A row is due when its key can be computed and is not among the processed ones.\<close>

definition due :: "'k env \<Rightarrow> args \<Rightarrow> 'k set \<Rightarrow> (string \<times> json) list \<Rightarrow> bool" where
  "due env a processed_uuids example =
     (case example_uuid env a example of
        Inl e \<Rightarrow> False
      | Inr uuid \<Rightarrow> uuid \<notin> processed_uuids)"

section \<open>Invariants of a run\<close>

text \<open>
  The bookkeeping of tasks: the set of active tasks is finite and holds every running
  task, a task waiting for its callback is done, and the set holds at most
  \<open>max_concurrent\<close> tasks (none when the limit is negative); so does the set
  \<open>asyncio.wait\<close> was called on while \<open>main\<close> is suspended in it.
\<close>

fun waiting_ok :: "int \<Rightarrow> nat set \<Rightarrow> phase \<Rightarrow> bool" where
  "waiting_ok limit r (Waiting fs) = (finite fs \<and> r \<subseteq> fs \<and> int (card fs) \<le> max 0 limit)"
| "waiting_ok limit r p = True"

definition tasks_consistent :: "args \<Rightarrow> state \<Rightarrow> bool" where
  "tasks_consistent a s =
     (finite (active_tasks s) \<and> running s \<subseteq> active_tasks s
      \<and> uncalled s \<inter> running s = {}
      \<and> uncalled s \<subseteq> {..< length (scheduled s)}
      \<and> int (card (active_tasks s)) \<le> max 0 (max_concurrent a)
      \<and> waiting_ok (max_concurrent a) (running s) (phase s))"

text \<open>
  How far the loop has come: the rows already passed are a prefix of the dataset, the
  tasks created are the due rows among them, and the loop is left only when the
  dataset is exhausted.
\<close>

fun past_loop :: "phase \<Rightarrow> bool" where
  "past_loop (Draining fs) = True"
| "past_loop Finished = True"
| "past_loop p = False"

definition progress ::
  "'k env \<Rightarrow> args \<Rightarrow> 'k set \<Rightarrow> (string \<times> json) list list \<Rightarrow> state \<Rightarrow> bool" where
  "progress env a K dataset s =
     ((\<exists>pre. dataset = pre @ todo s \<and> scheduled s = filter (due env a K) pre)
      \<and> (past_loop (phase s) \<longrightarrow> todo s = []))"

text \<open>
  What the run has appended to the lines \<open>lines0\<close> it started from: one record for each
  task of a duplicate-free list of finished tasks, holding the key of the task's row.
\<close>

definition written_once :: "'k env \<Rightarrow> args \<Rightarrow> line list \<Rightarrow> state \<Rightarrow> bool" where
  "written_once env a lines0 s =
     (\<exists>ts new. distinct ts \<and> set ts \<subseteq> {..< length (scheduled s)} - running s
        \<and> out_file s = lines0 @ new
        \<and> map Inr (store_keys (digest_of env) (uuid_column a) new) =
            map (\<lambda>t. example_uuid env a (scheduled s ! t)) ts)"

section \<open>Sample inputs\<close>

text \<open>
  Concrete inputs for the instances below: an environment whose digest never raises
  and is the identity
  and whose agent runs all return a transcript, the arguments with one generation per row
  and a given concurrency limit, and three rows.
\<close>

abbreviation (input) sample_env :: "json env" where
  "sample_env \<equiv>
     \<lparr>digest_of = Inr,
      agent_of = (\<lambda>t i. Messages (JList [JStr ''transcript''])),
      write_raises_of = (\<lambda>t. False)\<rparr>"

abbreviation (input) sample_args :: "string \<Rightarrow> int \<Rightarrow> args" where
  "sample_args col limit \<equiv>
     \<lparr>prompt_column = ''prompt'', uuid_column = col, num_generations = 1,
      max_concurrent = limit\<rparr>"

abbreviation (input) row_A :: "(string \<times> json) list" where
  "row_A \<equiv> [(''uuid'', JStr ''A''), (''finish_reasons'', JStr ''a''), (''prompt'', JStr ''add'')]"

abbreviation (input) row_B :: "(string \<times> json) list" where
  "row_B \<equiv> [(''uuid'', JStr ''B''), (''finish_reasons'', JStr ''b''), (''prompt'', JStr ''sort'')]"

abbreviation (input) row_C :: "(string \<times> json) list" where
  "row_C \<equiv> [(''uuid'', JStr ''C''), (''finish_reasons'', JStr ''c''), (''prompt'', JStr ''sum'')]"

section \<open>Properties of the request executor\<close>

lemma uniform_jitter_bounds:
  "0 \<le> u \<Longrightarrow> u < 1 \<Longrightarrow> 0 \<le> uniform 0 (1 / 10) u \<and> uniform 0 (1 / 10) u \<le> 1 / 10"
  by (simp add: uniform_def)

lemma retry_loop_exhausted: "b \<le> 0 \<Longrightarrow> retry_loop rnd post b k eff = (eff, b, JNull)"
  by (subst retry_loop.simps) simp

lemma retry_loop_success:
  "0 < b \<Longrightarrow> attempt (post k) = Inr body \<Longrightarrow>
   retry_loop rnd post b k eff = (eff @ [Sleep (uniform 0 (1 / 10) (rnd k)), Post], b, body)"
  by (subst retry_loop.simps) simp

lemma retry_loop_failure:
  "0 < b \<Longrightarrow> raises (post k) \<Longrightarrow>
   retry_loop rnd post b k eff = retry_loop rnd post (b - 1) (Suc k) (eff @ failed_round rnd k)"
  by (subst retry_loop.simps) (auto simp: raises_def failed_round_def split: sum.splits)

lemma concat_rounds_shift:
  "concat (map f [k ..< Suc (k + j)]) = f k @ concat (map f [Suc k ..< Suc (k + j)])"
  by (simp add: upt_conv_Cons del: upt_Suc)

lemma retry_loop_all_fail:
  "(\<forall>i. k \<le> i \<and> i < k + n \<longrightarrow> raises (post i)) \<Longrightarrow>
   retry_loop rnd post (int n) k eff =
     (eff @ concat (map (failed_round rnd) [k ..< k + n]), 0, JNull)"
proof (induction n arbitrary: k eff)
  case 0
  then show ?case by (simp add: retry_loop_exhausted)
next
  case (Suc n)
  have first: "raises (post k)" using Suc.prems by simp
  have rest: "\<forall>i. Suc k \<le> i \<and> i < Suc k + n \<longrightarrow> raises (post i)"
    using Suc.prems by simp
  have "retry_loop rnd post (int (Suc n)) k eff =
        retry_loop rnd post (int n) (Suc k) (eff @ failed_round rnd k)"
    using retry_loop_failure [where b = "int (Suc n)" and post = post and k = k] first
    by simp
  also have "\<dots> = ((eff @ failed_round rnd k)
        @ concat (map (failed_round rnd) [Suc k ..< Suc k + n]), 0, JNull)"
    by (rule Suc.IH [OF rest])
  finally show ?case
    by (simp add: concat_rounds_shift del: upt_Suc)
qed

lemma retry_loop_first_success:
  "int j < b \<Longrightarrow> (\<forall>i. k \<le> i \<and> i < k + j \<longrightarrow> raises (post i)) \<Longrightarrow>
   attempt (post (k + j)) = Inr body \<Longrightarrow>
   retry_loop rnd post b k eff =
     (eff @ concat (map (failed_round rnd) [k ..< k + j])
          @ [Sleep (uniform 0 (1 / 10) (rnd (k + j))), Post], b - int j, body)"
proof (induction j arbitrary: b k eff)
  case 0
  then show ?case by (simp add: retry_loop_success)
next
  case (Suc j)
  have first: "raises (post k)" using Suc.prems(2) by simp
  have lt: "int j < b - 1" using Suc.prems(1) by simp
  have rest: "\<forall>i. Suc k \<le> i \<and> i < Suc k + j \<longrightarrow> raises (post i)"
    using Suc.prems(2) by simp
  have body: "attempt (post (Suc k + j)) = Inr body"
    using Suc.prems(3) by simp
  have pos: "0 < b" using Suc.prems(1) by simp
  have "retry_loop rnd post b k eff =
        retry_loop rnd post (b - 1) (Suc k) (eff @ failed_round rnd k)"
    using retry_loop_failure [where b = b and post = post and k = k] pos first
    by simp
  also have "\<dots> = ((eff @ failed_round rnd k)
        @ concat (map (failed_round rnd) [Suc k ..< Suc k + j])
        @ [Sleep (uniform 0 (1 / 10) (rnd (Suc k + j))), Post], b - 1 - int j, body)"
    by (rule Suc.IH [OF lt rest body])
  finally show ?case
    by (simp add: concat_rounds_shift del: upt_Suc)
qed


text \<open>
  C5. Before each request the function sleeps \<open>uniform(0.0, 0.1)\<close> seconds, which lies
  between 0 and 100 ms. Every attempt that raises, whatever the exception, costs one unit
  of the budget of 10 and is followed by a 10 second sleep and another round. When all
  ten attempts raise, the budget is 0 and the function returns \<open>None\<close>; it never raises.
  When the first attempt that does not raise is the \<open>j\<close>-th, its body is returned after
  \<open>j\<close> failed rounds.
\<close>

theorem generate_completion_retry_policy:
  assumes "\<forall>i. 0 \<le> rnd i \<and> rnd i < 1"
  shows "(\<forall>i. 0 \<le> uniform 0 (1 / 10) (rnd i) \<and> uniform 0 (1 / 10) (rnd i) \<le> 1 / 10)
    \<and> ((\<forall>i<10. \<exists>e. attempt (post i) = Inl e) \<longrightarrow>
         generate_completion_from_messages rnd post =
           (concat (map (\<lambda>i. [Sleep (uniform 0 (1 / 10) (rnd i)), Post, Print, Sleep 10])
              [0 ..< 10]), 0, JNull))
    \<and> (\<forall>j<10. (\<forall>i<j. \<exists>e. attempt (post i) = Inl e) \<and> attempt (post j) = Inr body \<longrightarrow>
         generate_completion_from_messages rnd post =
           (concat (map (\<lambda>i. [Sleep (uniform 0 (1 / 10) (rnd i)), Post, Print, Sleep 10])
              [0 ..< j]) @ [Sleep (uniform 0 (1 / 10) (rnd j)), Post], 10 - int j, body))"
proof (intro conjI allI impI)
  fix i
  show "0 \<le> uniform 0 (1 / 10) (rnd i)" "uniform 0 (1 / 10) (rnd i) \<le> 1 / 10"
    using assms uniform_jitter_bounds [of "rnd i"] by simp_all
next
  assume "\<forall>i<10. \<exists>e. attempt (post i) = Inl e"
  then have "\<forall>i. 0 \<le> i \<and> i < 0 + (10::nat) \<longrightarrow> raises (post i)"
    by (auto simp: raises_def)
  from retry_loop_all_fail [OF this, of rnd "[]"]
  have "retry_loop rnd post (int 10) 0 [] =
      (concat (map (failed_round rnd) [0 ..< 10]), 0, JNull)"
    by simp
  moreover have "failed_round rnd =
      (\<lambda>i. [Sleep (uniform 0 (1 / 10) (rnd i)), Post, Print, Sleep 10])"
    by (rule ext) (simp add: failed_round_def)
  ultimately show "generate_completion_from_messages rnd post =
      (concat (map (\<lambda>i. [Sleep (uniform 0 (1 / 10) (rnd i)), Post, Print, Sleep 10])
         [0 ..< 10]), 0, JNull)"
    by (simp add: generate_completion_from_messages_def)
next
  fix j :: nat
  assume j: "j < 10"
    and "(\<forall>i<j. \<exists>e. attempt (post i) = Inl e) \<and> attempt (post j) = Inr body"
  then have fails: "\<forall>i. 0 \<le> i \<and> i < 0 + j \<longrightarrow> raises (post i)"
    and ok: "attempt (post (0 + j)) = Inr body"
    by (auto simp: raises_def)
  have lt: "int j < 10" using j by simp
  have round: "failed_round rnd =
      (\<lambda>i. [Sleep (uniform 0 (1 / 10) (rnd i)), Post, Print, Sleep 10])"
    by (rule ext) (simp add: failed_round_def)
  show "generate_completion_from_messages rnd post =
      (concat (map (\<lambda>i. [Sleep (uniform 0 (1 / 10) (rnd i)), Post, Print, Sleep 10])
         [0 ..< j]) @ [Sleep (uniform 0 (1 / 10) (rnd j)), Post], 10 - int j, body)"
    using retry_loop_first_success [OF lt fails ok, of rnd "[]"]
    by (simp add: generate_completion_from_messages_def round)
qed

theorem generate_completion_retry_policy_witness:
  "generate_completion_from_messages (\<lambda>i. 1 / 2)
     (\<lambda>i. if i < 2 then PostRaises OtherError else Response 200 (Some (JStr ''ok''))) =
     ([Sleep (1 / 20), Post, Print, Sleep 10, Sleep (1 / 20), Post, Print, Sleep 10,
       Sleep (1 / 20), Post], 8, JStr ''ok'')
   \<and> generate_completion_from_messages (\<lambda>i. 0) (\<lambda>i. Response 503 None) =
     (concat (replicate 10 [Sleep 0, Post, Print, Sleep 10]), 0, JNull)"
proof
  have rnd: "\<forall>i::nat. (0::rat) \<le> 1 / 2 \<and> (1 / 2 :: rat) < 1" by simp
  have two: "[0 ..< 2] = [0, Suc 0]" by (simp add: upt_rec)
  show "generate_completion_from_messages (\<lambda>i. 1 / 2)
     (\<lambda>i. if i < 2 then PostRaises OtherError else Response 200 (Some (JStr ''ok''))) =
     ([Sleep (1 / 20), Post, Print, Sleep 10, Sleep (1 / 20), Post, Print, Sleep 10,
       Sleep (1 / 20), Post], 8, JStr ''ok'')"
    using generate_completion_retry_policy [OF rnd,
        of "\<lambda>i. if i < 2 then PostRaises OtherError else Response 200 (Some (JStr ''ok''))"
           "JStr ''ok''", THEN conjunct2, THEN conjunct2, THEN spec, of 2]
    by (simp add: two uniform_def less_Suc_eq)
next
  have rnd: "\<forall>i::nat. (0::rat) \<le> 0 \<and> (0::rat) < 1" by simp
  have ten: "concat (map (\<lambda>i. [Sleep 0, Post, Print, Sleep 10]) [0 ..< 10]) =
      concat (replicate 10 [Sleep 0, Post, Print, Sleep 10])"
    by (simp add: map_replicate_const)
  show "generate_completion_from_messages (\<lambda>i. 0) (\<lambda>i. Response 503 None) =
     (concat (replicate 10 [Sleep 0, Post, Print, Sleep 10]), 0, JNull)"
    using generate_completion_retry_policy [OF rnd, of "\<lambda>i. Response 503 None",
        THEN conjunct2, THEN conjunct1] ten
    by (simp add: uniform_def)
qed

text \<open>
  C10. The status code of a response plays no part: when the first attempt that does not
  raise is the \<open>j\<close>-th and its body parses as JSON, that body is the result whatever the
  status, and the budget left is 10 minus the number of attempts that raised. A response
  with an error status and a JSON body on the first attempt is returned with the whole
  budget still in hand.
\<close>

theorem error_status_response_is_returned:
  assumes "j < 10"
    and "\<forall>i<j. \<exists>e. attempt (post i) = Inl e"
    and "post j = Response status (Some body)"
  shows "generate_completion_from_messages rnd post =
     (concat (map (\<lambda>i. [Sleep (uniform 0 (1 / 10) (rnd i)), Post, Print, Sleep 10]) [0 ..< j])
        @ [Sleep (uniform 0 (1 / 10) (rnd j)), Post], 10 - int j, body)"
proof -
  have fails: "\<forall>i. 0 \<le> i \<and> i < 0 + j \<longrightarrow> raises (post i)"
    using assms(2) by (auto simp: raises_def)
  have ok: "attempt (post (0 + j)) = Inr body"
    using assms(3) by simp
  have lt: "int j < 10" using assms(1) by simp
  have round: "failed_round rnd =
      (\<lambda>i. [Sleep (uniform 0 (1 / 10) (rnd i)), Post, Print, Sleep 10])"
    by (rule ext) (simp add: failed_round_def)
  show ?thesis
    using retry_loop_first_success [OF lt fails ok, of rnd "[]"]
    by (simp add: generate_completion_from_messages_def round)
qed

theorem error_status_response_is_returned_witness:
  "generate_completion_from_messages (\<lambda>i. 0)
     (\<lambda>i. Response 500 (Some (JDict [(''error'', JStr ''overloaded'')]))) =
     ([Sleep 0, Post], 10, JDict [(''error'', JStr ''overloaded'')])"
  using error_status_response_is_returned [of 0
      "\<lambda>i. Response 500 (Some (JDict [(''error'', JStr ''overloaded'')]))" 500
      "JDict [(''error'', JStr ''overloaded'')]" "\<lambda>i. 0"]
  by (simp add: uniform_def)


section \<open>Properties of processing one row\<close>

lemma gather_map_Inr: "gather (map Inr xs) = Inr xs"
  by (induction xs) simp_all

lemma gather_Inr_D: "gather rs = Inr xs \<Longrightarrow> rs = map Inr xs"
  by (induction rs arbitrary: xs rule: gather.induct) (auto split: sum.splits)

lemma gather_Inr_iff: "gather rs = Inr xs \<longleftrightarrow> rs = map Inr xs"
  using gather_map_Inr gather_Inr_D by metis

lemma process_example_cases:
  "process_example a agent w example output_file = (r, output_file') \<Longrightarrow>
   output_file' = output_file \<or>
   (\<exists>runs. map (\<lambda>i. get_agent_run (agent i)) [0 ..< nat (num_generations a)] = map Inr runs
      \<and> JNull \<notin> set runs \<and> \<not> w
      \<and> r = Inr (JDict (build_result example runs))
      \<and> output_file' = output_file @ [Parsed (JDict (build_result example runs))])"
  by (auto simp: process_example_def gather_Inr_iff split: sum.splits if_splits)

text \<open>
  C1. When one of the \<open>num_generations\<close> agent runs returns \<open>None\<close>, \<open>process_example\<close>
  leaves the output file as it was. When the file changes, every run returned a
  transcript, and what was appended is the one record of the row with these transcripts.
\<close>

theorem process_example_all_or_nothing:
  assumes "process_example a agent w example output_file = (r, output_file')"
  shows "((\<exists>i < nat (num_generations a). get_agent_run (agent i) = Inr JNull) \<longrightarrow>
            output_file' = output_file)
    \<and> (output_file' \<noteq> output_file \<longrightarrow>
          (\<exists>runs. length runs = nat (num_generations a)
             \<and> (\<forall>i < nat (num_generations a).
                   get_agent_run (agent i) = Inr (runs ! i) \<and> runs ! i \<noteq> JNull)
             \<and> r = Inr (JDict (build_result example runs))
             \<and> output_file' = output_file @ [Parsed (JDict (build_result example runs))]))"
proof -
  let ?n = "nat (num_generations a)"
  let ?rs = "map (\<lambda>i. get_agent_run (agent i)) [0 ..< ?n]"
  have shape: "length runs = ?n \<and> (\<forall>i < ?n. get_agent_run (agent i) = Inr (runs ! i))"
    if "?rs = map Inr runs" for runs
  proof
    show len: "length runs = ?n"
      using arg_cong [OF that, of length] by simp
    show "\<forall>i < ?n. get_agent_run (agent i) = Inr (runs ! i)"
    proof (intro allI impI)
      fix i assume i: "i < ?n"
      have "?rs ! i = map Inr runs ! i" using that by simp
      then show "get_agent_run (agent i) = Inr (runs ! i)"
        using i len by simp
    qed
  qed
  from process_example_cases [OF assms]
  show ?thesis
  proof
    assume "output_file' = output_file"
    then show ?thesis by simp
  next
    assume "\<exists>runs. ?rs = map Inr runs \<and> JNull \<notin> set runs \<and> \<not> w
        \<and> r = Inr (JDict (build_result example runs))
        \<and> output_file' = output_file @ [Parsed (JDict (build_result example runs))]"
    then obtain runs where runs: "?rs = map Inr runs" "JNull \<notin> set runs"
        "r = Inr (JDict (build_result example runs))"
        "output_file' = output_file @ [Parsed (JDict (build_result example runs))]"
      by blast
    note sh = shape [OF runs(1)]
    have nonnull: "\<forall>i < ?n. runs ! i \<noteq> JNull"
      using runs(2) sh by (metis nth_mem)
    have no_failure: "\<not> (\<exists>i < ?n. get_agent_run (agent i) = Inr JNull)"
      using sh nonnull by auto
    show ?thesis
      using sh nonnull no_failure runs(3,4) by blast
  qed
qed

theorem process_example_all_or_nothing_witness:
  "process_example
     \<lparr>prompt_column = ''prompt'', uuid_column = ''uuid'', num_generations = 2,
      max_concurrent = 1\<rparr>
     (\<lambda>i. if i = 0 then Messages (JList [JStr ''step'']) else RunRaises OtherError)
     False [(''uuid'', JStr ''A''), (''prompt'', JStr ''add two numbers'')] [] = (Inr JNull, [])"
proof -
  let ?a = "\<lparr>prompt_column = ''prompt'', uuid_column = ''uuid'', num_generations = 2,
      max_concurrent = 1\<rparr>"
  let ?agent = "\<lambda>i::nat. if i = 0 then Messages (JList [JStr ''step'']) else RunRaises OtherError"
  let ?ex = "[(''uuid'', JStr ''A''), (''prompt'', JStr ''add two numbers'')]"
  obtain r out where run: "process_example ?a ?agent False ?ex [] = (r, out)"
    by (cases "process_example ?a ?agent False ?ex []")
  have failed: "\<exists>i < nat (num_generations ?a). get_agent_run (?agent i) = Inr JNull"
    by (rule exI [of _ 1]) simp
  have "out = []"
    using process_example_all_or_nothing [OF run] failed by blast
  moreover have "r = Inr JNull"
    using run by (simp add: process_example_def upt_rec)
  ultimately show ?thesis using run by simp
qed

section \<open>Properties of the startup scan\<close>

lemma scan_lines_skips_undecodable:
  "scan_lines digest col (filter (\<lambda>l. l \<noteq> LoadsRaises JSONDecodeError) ls) acc =
   scan_lines digest col ls acc"
  by (induction digest col ls acc rule: scan_lines.induct) (auto split: sum.splits)

lemma scan_lines_records:
  "(\<forall>l \<in> set ls. l = LoadsRaises JSONDecodeError \<or> keyed digest col l) \<Longrightarrow>
   scan_lines digest col ls acc = Inr (acc \<union> set (store_keys digest col ls))"
  by (induction digest col ls acc rule: scan_lines.induct) (auto split: sum.splits)

lemma scan_lines_raises:
  "\<exists>l \<in> set ls. l \<noteq> LoadsRaises JSONDecodeError \<and> \<not> keyed digest col l \<Longrightarrow>
   \<exists>e. scan_lines digest col ls acc = Inl e"
  by (induction digest col ls acc rule: scan_lines.induct) (auto split: sum.splits)

lemma scan_lines_first_failure:
  "(\<forall>l \<in> set pre. line_error digest col l = None) \<Longrightarrow> line_error digest col l = Some e \<Longrightarrow>
   scan_lines digest col (pre @ l # rest) acc = Inl e"
proof (induction pre arbitrary: acc)
  case Nil
  then show ?case
    by (cases l) (auto split: sum.splits if_splits)
next
  case (Cons x pre)
  then show ?case
    by (cases x) (auto split: sum.splits if_splits)
qed

lemma uuid_of_not_dict:
  "(\<forall>d. data \<noteq> JDict d) \<Longrightarrow> uuid_of digest col data = Inl TypeError"
  by (cases data) (auto simp: uuid_of_def)

lemma uuid_of_missing:
  "map_of d col = None \<Longrightarrow> uuid_of digest col (JDict d) = Inl KeyError"
  by (simp add: uuid_of_def)

text \<open>
  C6, as the code has it. A file that does not exist gives the empty set. Lines on which
  \<open>json.loads\<close> raises \<open>JSONDecodeError\<close> have no effect on the scan, whatever else the
  file holds. When every other line is read, parses to a dictionary that holds the
  uuid column, and the value there can be digested, the scan returns the set of the keys
  of these lines. Any other line makes the scan raise, and what it raises is the
  exception of the first such line: the one raised by reading it, the one raised by
  \<open>json.loads\<close> when that is not \<open>JSONDecodeError\<close>, \<open>TypeError\<close> when the line parses to
  something that is not a dictionary, \<open>KeyError\<close> when it parses to a dictionary without
  the column, or the one raised by the digest.
\<close>

theorem load_processed_uuids_skips_undecodable:
  "load_processed_uuids digest None col = Inr {}
   \<and> load_processed_uuids digest
         (Some (filter (\<lambda>l. l \<noteq> LoadsRaises JSONDecodeError) ls)) col =
       load_processed_uuids digest (Some ls) col
   \<and> ((\<forall>l \<in> set ls. l = LoadsRaises JSONDecodeError \<or> keyed digest col l) \<longrightarrow>
        load_processed_uuids digest (Some ls) col = Inr (set (store_keys digest col ls)))
   \<and> ((\<exists>l \<in> set ls. l \<noteq> LoadsRaises JSONDecodeError \<and> \<not> keyed digest col l) \<longrightarrow>
        (\<exists>e. load_processed_uuids digest (Some ls) col = Inl e))
   \<and> ((\<forall>l \<in> set pre. line_error digest col l = None) \<and> line_error digest col l = Some e \<longrightarrow>
        load_processed_uuids digest (Some (pre @ l # rest)) col = Inl e)
   \<and> ((\<forall>d. data \<noteq> JDict d) \<longrightarrow> line_error digest col (Parsed data) = Some TypeError)
   \<and> (map_of d col = None \<longrightarrow> line_error digest col (Parsed (JDict d)) = Some KeyError)"
proof (intro conjI impI)
  show "load_processed_uuids digest None col = Inr {}"
    by (simp add: load_processed_uuids_def)
  show "load_processed_uuids digest
         (Some (filter (\<lambda>l. l \<noteq> LoadsRaises JSONDecodeError) ls)) col =
      load_processed_uuids digest (Some ls) col"
    unfolding load_processed_uuids_def option.case
    by (rule scan_lines_skips_undecodable)
next
  assume "\<forall>l \<in> set ls. l = LoadsRaises JSONDecodeError \<or> keyed digest col l"
  from scan_lines_records [OF this, of "{}"]
  show "load_processed_uuids digest (Some ls) col = Inr (set (store_keys digest col ls))"
    by (simp add: load_processed_uuids_def)
next
  assume "\<exists>l \<in> set ls. l \<noteq> LoadsRaises JSONDecodeError \<and> \<not> keyed digest col l"
  from scan_lines_raises [OF this, of "{}"]
  show "\<exists>e. load_processed_uuids digest (Some ls) col = Inl e"
    by (simp add: load_processed_uuids_def)
next
  assume "(\<forall>l \<in> set pre. line_error digest col l = None) \<and> line_error digest col l = Some e"
  then show "load_processed_uuids digest (Some (pre @ l # rest)) col = Inl e"
    by (simp add: load_processed_uuids_def scan_lines_first_failure)
next
  assume "\<forall>d. data \<noteq> JDict d"
  then show "line_error digest col (Parsed data) = Some TypeError"
    by (simp add: uuid_of_not_dict)
next
  assume "map_of d col = None"
  then show "line_error digest col (Parsed (JDict d)) = Some KeyError"
    by (simp add: uuid_of_missing)
qed

theorem load_processed_uuids_skips_undecodable_witness:
  "load_processed_uuids Inr
     (Some [Parsed (JDict [(''uuid'', JStr ''A'')]), LoadsRaises JSONDecodeError,
            Parsed (JDict [(''uuid'', JStr ''B'')])])
     ''uuid'' = Inr {JStr ''A'', JStr ''B''}
   \<and> load_processed_uuids (Inr :: json \<Rightarrow> exn + json)
     (Some [Parsed (JDict [(''uuid'', JStr ''A'')]), LoadsRaises RecursionError])
     ''uuid'' = Inl RecursionError"
proof
  show "load_processed_uuids Inr
     (Some [Parsed (JDict [(''uuid'', JStr ''A'')]), LoadsRaises JSONDecodeError,
            Parsed (JDict [(''uuid'', JStr ''B'')])])
     ''uuid'' = Inr {JStr ''A'', JStr ''B''}"
    using load_processed_uuids_skips_undecodable [where digest = Inr and col = "''uuid''"
        and ls = "[Parsed (JDict [(''uuid'', JStr ''A'')]), LoadsRaises JSONDecodeError,
          Parsed (JDict [(''uuid'', JStr ''B'')])]"]
    by (simp add: uuid_of_def)
  show "load_processed_uuids (Inr :: json \<Rightarrow> exn + json)
     (Some [Parsed (JDict [(''uuid'', JStr ''A'')]), LoadsRaises RecursionError])
     ''uuid'' = Inl RecursionError"
    using load_processed_uuids_skips_undecodable [where digest = "Inr :: json \<Rightarrow> exn + json"
        and col = "''uuid''" and pre = "[Parsed (JDict [(''uuid'', JStr ''A'')])]"
        and l = "LoadsRaises RecursionError" and e = RecursionError and rest = "[]"]
    by (simp add: uuid_of_def)
qed

text \<open>
  A file whose second line is not JSON and whose third line is the JSON text
  \<open>null\<close>: the second line is skipped, the third makes the scan raise.
\<close>

theorem load_processed_uuids_counterexample:
  "load_processed_uuids (Inr :: json \<Rightarrow> exn + json)
     (Some [Parsed (JDict [(''uuid'', JStr ''A'')]), LoadsRaises JSONDecodeError, Parsed JNull])
     ''uuid'' = Inl TypeError"
  by (simp add: load_processed_uuids_def uuid_of_def)

section \<open>Properties of the reward functions\<close>











text \<open>
  C8. Construction with a non-negative \<open>max_penalty\<close> yields the configuration error and
  no scorer; with a negative one it yields the scorer.
\<close>

theorem get_repetition_penalty_reward_rejects_nonnegative:
  "(0 \<le> max_penalty \<longrightarrow> get_repetition_penalty_reward ngram_size max_penalty = Inl ValueError)
   \<and> (max_penalty < 0 \<longrightarrow>
        get_repetition_penalty_reward ngram_size max_penalty =
          Inr (repetition_penalty_reward ngram_size max_penalty))"
  by (simp add: get_repetition_penalty_reward_def)

theorem get_repetition_penalty_reward_rejects_nonnegative_witness:
  "get_repetition_penalty_reward 2 0 = Inl ValueError
   \<and> get_repetition_penalty_reward 2 (3 / 2) = Inl ValueError
   \<and> get_repetition_penalty_reward 2 (- 1) = Inr (repetition_penalty_reward 2 (- 1))"
  using get_repetition_penalty_reward_rejects_nonnegative [of 0 2]
    get_repetition_penalty_reward_rejects_nonnegative [of "3 / 2" 2]
    get_repetition_penalty_reward_rejects_nonnegative [of "- 1" 2]
  by simp

lemma spec_model_passes_test_positive_max_penalty:
  "test_positive_max_penalty_raises_value_error get_repetition_penalty_reward"
  by (simp add: test_positive_max_penalty_raises_value_error_def
      get_repetition_penalty_reward_def)

text \<open>
  C9. One score per completion, \<open>min(1, step_count / 3)\<close>: a third for one step, two
  thirds for two, and 1 from three steps on.
\<close>

theorem reasoning_steps_reward_formula:
  "length (reasoning_steps_reward count_steps completions) = length completions
   \<and> (\<forall>i < length completions.
        reasoning_steps_reward count_steps completions ! i =
          min 1 (of_nat (count_steps (completions ! i)) / 3)
        \<and> (count_steps (completions ! i) = 1 \<longrightarrow>
             reasoning_steps_reward count_steps completions ! i = 1 / 3)
        \<and> (count_steps (completions ! i) = 2 \<longrightarrow>
             reasoning_steps_reward count_steps completions ! i = 2 / 3)
        \<and> (3 \<le> count_steps (completions ! i) \<longrightarrow>
             reasoning_steps_reward count_steps completions ! i = 1))"
proof (intro conjI allI impI)
  show "length (reasoning_steps_reward count_steps completions) = length completions"
    by (simp add: reasoning_steps_reward_def)
next
  fix i assume i: "i < length completions"
  then show nth: "reasoning_steps_reward count_steps completions ! i =
      min 1 (of_nat (count_steps (completions ! i)) / 3)"
    by (simp add: reasoning_steps_reward_def)
  {
    assume "count_steps (completions ! i) = 1"
    then show "reasoning_steps_reward count_steps completions ! i = 1 / 3"
      using nth by simp
  }
  {
    assume "count_steps (completions ! i) = 2"
    then show "reasoning_steps_reward count_steps completions ! i = 2 / 3"
      using nth by simp
  }
  {
    assume "3 \<le> count_steps (completions ! i)"
    then have "(1::rat) \<le> of_nat (count_steps (completions ! i)) / 3"
      by simp
    then show "reasoning_steps_reward count_steps completions ! i = 1"
      using nth by simp
  }
qed

theorem reasoning_steps_reward_formula_witness:
  "reasoning_steps_reward length [''a'', ''ab'', ''abc'', ''abcd''] = [1 / 3, 2 / 3, 1, 1]"
proof -
  let ?cs = "[''a'', ''ab'', ''abc'', ''abcd'']"
  note f = reasoning_steps_reward_formula [of length ?cs, THEN conjunct2, THEN spec]
  have "reasoning_steps_reward length ?cs ! 0 = 1 / 3"
    using f [of 0] by simp
  moreover have "reasoning_steps_reward length ?cs ! 1 = 2 / 3"
    using f [of 1] by simp
  moreover have "reasoning_steps_reward length ?cs ! 2 = 1"
    using f [of 2] by simp
  moreover have "reasoning_steps_reward length ?cs ! 3 = 1"
    using f [of 3] by simp
  moreover have "length (reasoning_steps_reward length ?cs) = 4"
    using reasoning_steps_reward_formula [of length ?cs] by simp
  ultimately show ?thesis
    by (simp add: list_eq_iff_nth_eq less_Suc_eq numeral_nat)
qed

text \<open>
  With a step-detection rule that finds at least three markers in the first two
  contents of \<open>test_reasoning_steps_reward\<close>, one in the third, two in the fourth and
  none in the last, the formula passes the test.
\<close>

lemma spec_model_passes_test_reasoning_steps_reward:
  assumes "3 \<le> count_steps
      ''Step 1: First step\<newline>Step 2: Second step\<newline>Step 3: Third step''"
    and "3 \<le> count_steps
      ''First, we do this.\<newline>Second, we do that.\<newline>Finally, we conclude.''"
    and "count_steps ''Step 1: Only step'' = 1"
    and "count_steps ''First, we do this.\<newline>Finally, we conclude.'' = 2"
    and "count_steps ''Just plain text without any clear steps'' = 0"
  shows "test_reasoning_steps_reward (reasoning_steps_reward count_steps)"
proof -
  have big: "min (1::rat) (of_nat n / 3) = 1" if "3 \<le> n" for n :: nat
    using that by simp
  show ?thesis
    using assms big
    by (simp add: test_reasoning_steps_reward_def reasoning_steps_test_cases_def
        reasoning_steps_reward_def almost_equal_def)
qed

section \<open>Properties of the runner\<close>

subsection \<open>The concurrency limit\<close>

lemma tasks_consistent_initial: "tasks_consistent a (initial dataset output_file)"
  by (simp add: tasks_consistent_def initial_def)

lemma tasks_consistent_schedule:
  assumes "tasks_consistent a s" "\<not> max_concurrent a \<le> int (card (active_tasks s))"
    and "phase s = Iterating"
  shows "tasks_consistent a (schedule example s)"
proof -
  have fin: "finite (active_tasks s)" using assms(1) by (simp add: tasks_consistent_def)
  have "card (insert (length (scheduled s)) (active_tasks s)) \<le> Suc (card (active_tasks s))"
    using fin by (simp add: card_insert_if)
  then have "int (card (insert (length (scheduled s)) (active_tasks s))) \<le> max_concurrent a"
    using assms(2) by linarith
  then show ?thesis
    using assms(1,3) by (auto simp: tasks_consistent_def schedule_def)
qed

lemma tasks_consistent_wait:
  assumes "tasks_consistent a s"
  shows "tasks_consistent a (wait_first_completed s)"
  using assms by (auto simp: tasks_consistent_def wait_first_completed_def)

lemma tasks_consistent_wait_returns:
  assumes "tasks_consistent a s" "phase s = Waiting fs"
  shows "tasks_consistent a (wait_returns fs s)"
proof -
  have fs: "finite fs" "running s \<subseteq> fs" "int (card fs) \<le> max 0 (max_concurrent a)"
    using assms by (simp_all add: tasks_consistent_def)
  have "card (fs \<inter> running s) \<le> card fs"
    using fs(1) by (simp add: card_mono)
  then have "int (card (fs \<inter> running s)) \<le> max 0 (max_concurrent a)"
    using fs(3) by linarith
  then show ?thesis
    using assms(1) fs(1,2) by (auto simp: tasks_consistent_def wait_returns_def)
qed

lemma tasks_consistent_main_step:
  assumes "tasks_consistent a s"
  shows "tasks_consistent a (main_step env a K s)"
proof (cases "phase s")
  case Iterating
  have plain: "tasks_consistent a (s\<lparr>phase := Crashed e\<rparr>)"
      "tasks_consistent a (s\<lparr>phase := Finished\<rparr>)"
      "tasks_consistent a (s\<lparr>phase := Draining fs\<rparr>)"
      "tasks_consistent a (s\<lparr>todo := r\<rparr>)" for e fs r
    using assms Iterating by (simp_all add: tasks_consistent_def)
  show ?thesis
    using Iterating plain tasks_consistent_wait [OF assms]
      tasks_consistent_schedule [OF assms _ Iterating]
    by (auto simp: main_step_def split: list.splits sum.splits)
next
  case (Waiting fs)
  then show ?thesis
    using tasks_consistent_wait_returns [OF assms Waiting] by (simp add: main_step_def)
next
  case (Draining fs)
  then show ?thesis
    using assms by (simp add: main_step_def tasks_consistent_def)
next
  case Finished
  then show ?thesis using assms by (simp add: main_step_def)
next
  case (Crashed e)
  then show ?thesis using assms by (simp add: main_step_def)
qed

lemma waiting_ok_mono: "waiting_ok limit r p \<Longrightarrow> r' \<subseteq> r \<Longrightarrow> waiting_ok limit r' p"
  by (cases p) auto

lemma tasks_consistent_task_done:
  assumes "tasks_consistent a s"
  shows "tasks_consistent a (task_done env a t s)"
proof -
  have "waiting_ok (max_concurrent a) (running s - {t}) (phase s)"
    using assms by (auto simp: tasks_consistent_def intro: waiting_ok_mono)
  then show ?thesis
    using assms by (auto simp: tasks_consistent_def task_done_def)
qed

lemma tasks_consistent_done_callback:
  assumes "tasks_consistent a s"
  shows "tasks_consistent a (done_callback t s)"
proof -
  have fin: "finite (active_tasks s)" using assms by (simp add: tasks_consistent_def)
  have "card (active_tasks s - {t}) \<le> card (active_tasks s)"
    using fin by (simp add: card_mono)
  then show ?thesis
    using assms by (auto simp: tasks_consistent_def done_callback_def)
qed

lemma tasks_consistent_step:
  "tasks_consistent a s \<Longrightarrow> tasks_consistent a (step env a K e s)"
  by (cases e)
     (simp_all add: tasks_consistent_main_step tasks_consistent_task_done
        tasks_consistent_done_callback)

lemma tasks_consistent_run:
  "tasks_consistent a s \<Longrightarrow> tasks_consistent a (run env a K es s)"
  by (induction es arbitrary: s) (simp_all add: tasks_consistent_step)

lemma run_snoc: "run env a K (es @ [e]) s = step env a K e (run env a K es s)"
  by (induction es arbitrary: s) simp_all

lemma tasks_consistent_main: "tasks_consistent a (main env a output_file dataset es)"
proof (cases "load_processed_uuids (digest_of env) output_file (uuid_column a)")
  case (Inl e)
  then show ?thesis
    using tasks_consistent_initial [of a dataset output_file]
    by (simp add: main_def tasks_consistent_def)
next
  case (Inr K)
  then show ?thesis
    by (simp add: main_def tasks_consistent_run tasks_consistent_initial)
qed

lemma step_grows_scheduled:
  "scheduled (step env a K e s) \<noteq> scheduled s \<Longrightarrow>
   int (card (active_tasks s)) < max_concurrent a"
  by (cases e)
     (auto simp: main_step_def task_done_def done_callback_def wait_first_completed_def
        wait_returns_def
        split: phase.splits list.splits sum.splits if_splits)

lemma main_snoc:
  "scheduled (main env a output_file dataset (es @ [e])) \<noteq>
     scheduled (main env a output_file dataset es) \<Longrightarrow>
   int (card (active_tasks (main env a output_file dataset es))) < max_concurrent a"
  by (cases "load_processed_uuids (digest_of env) output_file (uuid_column a)")
     (auto simp: main_def run_snoc dest: step_grows_scheduled)

text \<open>
  C3. With a limit \<open>max_concurrent\<close> that is not negative, under every timing and at
  every moment of the run the set \<open>active_tasks\<close> holds at most \<open>max_concurrent\<close> tasks.
  It holds every task that is still running, so no more than \<open>max_concurrent\<close> calls of
  \<open>process_example\<close> are in flight. A step of the run creates a task only in a state
  where fewer than \<open>max_concurrent\<close> tasks are in the set.
\<close>

theorem active_tasks_never_exceed_limit:
  assumes "0 \<le> max_concurrent a"
  shows "int (card (active_tasks (main env a output_file dataset es))) \<le> max_concurrent a
    \<and> running (main env a output_file dataset es)
         \<subseteq> active_tasks (main env a output_file dataset es)
    \<and> int (card (running (main env a output_file dataset es))) \<le> max_concurrent a
    \<and> (scheduled (main env a output_file dataset (es @ [e])) \<noteq>
          scheduled (main env a output_file dataset es) \<longrightarrow>
        int (card (active_tasks (main env a output_file dataset es))) < max_concurrent a)"
proof -
  let ?s = "main env a output_file dataset es"
  have c: "tasks_consistent a ?s" by (rule tasks_consistent_main)
  then have fin: "finite (active_tasks ?s)" and sub: "running ?s \<subseteq> active_tasks ?s"
    and le: "int (card (active_tasks ?s)) \<le> max_concurrent a"
    using assms by (simp_all add: tasks_consistent_def)
  have "card (running ?s) \<le> card (active_tasks ?s)"
    using fin sub by (rule card_mono)
  then show ?thesis
    using sub le main_snoc [of env a output_file dataset es e] by auto
qed

theorem active_tasks_never_exceed_limit_witness:
  "active_tasks (main sample_env (sample_args ''uuid'' 1) None [row_A, row_B]
      [Main, Main, Done 0, Main, Main]) = {1}
   \<and> int (card (active_tasks (main sample_env (sample_args ''uuid'' 1) None [row_A, row_B]
      [Main, Main, Done 0, Main, Main]))) \<le> 1"
proof
  show "active_tasks (main sample_env (sample_args ''uuid'' 1) None [row_A, row_B]
      [Main, Main, Done 0, Main, Main]) = {1}"
    by code_simp
  show "int (card (active_tasks (main sample_env (sample_args ''uuid'' 1) None [row_A, row_B]
      [Main, Main, Done 0, Main, Main]))) \<le> 1"
    using active_tasks_never_exceed_limit [of "sample_args ''uuid'' 1" sample_env None
        "[row_A, row_B]" "[Main, Main, Done 0, Main, Main]" Main]
    by simp
qed

subsection \<open>Resuming\<close>

lemma progress_initial: "progress env a K dataset (initial dataset output_file)"
  by (simp add: progress_def initial_def)

lemma progress_frame:
  "progress env a K dataset s \<Longrightarrow> todo s' = todo s \<Longrightarrow> scheduled s' = scheduled s \<Longrightarrow>
   (past_loop (phase s') \<longrightarrow> todo s = []) \<Longrightarrow>
   progress env a K dataset s'"
  by (simp add: progress_def)

lemma progress_main_step:
  assumes "progress env a K dataset s"
  shows "progress env a K dataset (main_step env a K s)"
proof (cases "phase s")
  case Iterating
  from assms obtain pre where pre: "dataset = pre @ todo s" "scheduled s = filter (due env a K) pre"
    by (auto simp: progress_def)
  show ?thesis
  proof (cases "todo s")
    case Nil
    then show ?thesis
      using assms Iterating by (simp add: main_step_def progress_def)
  next
    case (Cons example rest)
    show ?thesis
    proof (cases "example_uuid env a example")
      case (Inl e)
      then show ?thesis
        using assms Iterating Cons by (simp add: main_step_def progress_def)
    next
      case (Inr uuid)
      show ?thesis
      proof (cases "uuid \<in> K")
        case True
        then have "\<not> due env a K example" using Inr by (simp add: due_def)
        then have "dataset = (pre @ [example]) @ rest
            \<and> scheduled s = filter (due env a K) (pre @ [example])"
          using pre Cons by simp
        then show ?thesis
          using Iterating Cons Inr True
          unfolding main_step_def progress_def by (auto simp del: append_assoc)
      next
        case False
        then have d: "due env a K example" using Inr by (simp add: due_def)
        show ?thesis
        proof (cases "max_concurrent a \<le> int (card (active_tasks s))")
          case True
          have "progress env a K dataset (wait_first_completed s)"
            using Iterating
            by (intro progress_frame [OF assms]) (auto simp: wait_first_completed_def)
          then show ?thesis
            using Iterating Cons Inr False True by (simp add: main_step_def)
        next
          case wait: False
          have "dataset = (pre @ [example]) @ rest
              \<and> scheduled s @ [example] = filter (due env a K) (pre @ [example])"
            using pre Cons d by simp
          then have "progress env a K dataset (schedule example s)"
            using Iterating Cons
            unfolding progress_def schedule_def by (auto simp del: append_assoc)
          then show ?thesis
            using Iterating Cons Inr False wait by (simp add: main_step_def)
        qed
      qed
    qed
  qed
next
  case (Waiting fs)
  have "progress env a K dataset (wait_returns fs s)"
    using Waiting
    by (intro progress_frame [OF assms]) (auto simp: wait_returns_def)
  then show ?thesis using Waiting by (simp add: main_step_def)
next
  case (Draining fs)
  then show ?thesis using assms by (auto simp: main_step_def progress_def)
next
  case Finished
  then show ?thesis using assms by (simp add: main_step_def)
next
  case (Crashed e)
  then show ?thesis using assms by (simp add: main_step_def)
qed

lemma progress_step:
  assumes "progress env a K dataset s"
  shows "progress env a K dataset (step env a K e s)"
proof (cases e)
  case Main
  then show ?thesis using assms by (simp add: progress_main_step)
next
  case (Done t)
  then show ?thesis
    using assms by (auto simp: progress_def task_done_def)
next
  case (Callback t)
  then show ?thesis
    using assms by (auto simp: progress_def done_callback_def)
qed

lemma progress_run:
  "progress env a K dataset s \<Longrightarrow> progress env a K dataset (run env a K es s)"
  by (induction es arbitrary: s) (simp_all add: progress_step)

lemma scan_lines_keys:
  "scan_lines digest col ls acc = Inr K \<Longrightarrow> K = acc \<union> set (store_keys digest col ls)"
  by (induction digest col ls acc arbitrary: K rule: scan_lines.induct)
     (auto split: sum.splits if_splits)

lemma load_processed_uuids_keys:
  "load_processed_uuids digest output_file col = Inr K \<Longrightarrow>
   K = set (store_keys digest col (case output_file of None \<Rightarrow> [] | Some ls \<Rightarrow> ls))"
  by (cases output_file) (auto simp: load_processed_uuids_def dest: scan_lines_keys)

lemma progress_take:
  assumes "progress env a K dataset s"
  shows "scheduled s = filter (due env a K) (take (length dataset - length (todo s)) dataset)"
proof -
  from assms obtain pre where "dataset = pre @ todo s" "scheduled s = filter (due env a K) pre"
    by (auto simp: progress_def)
  then show ?thesis by simp
qed

lemma progress_keys:
  assumes "progress env a K dataset s"
  shows "\<forall>example \<in> set (scheduled s). \<exists>uuid. example_uuid env a example = Inr uuid \<and> uuid \<notin> K"
proof -
  from assms obtain pre where "scheduled s = filter (due env a K) pre"
    by (auto simp: progress_def)
  then show ?thesis by (auto simp: due_def split: sum.splits)
qed

text \<open>
  C2. Let \<open>K\<close> be the keys of the records in the output file. Under every timing and at
  every moment of the run, the tasks created are exactly the rows, among those the
  loop has passed, whose key is not in \<open>K\<close>: no row whose key is in the file is
  scheduled, and when the run has finished the tasks created are exactly the rows of
  the dataset whose key is not in \<open>K\<close>.
\<close>

theorem rerun_schedules_only_unprocessed:
  "scheduled (main env a output_file dataset es) =
     filter (due env a (set (store_keys (digest_of env) (uuid_column a)
                (case output_file of None \<Rightarrow> [] | Some ls \<Rightarrow> ls))))
       (take (length dataset - length (todo (main env a output_file dataset es))) dataset)
   \<and> (\<forall>example \<in> set (scheduled (main env a output_file dataset es)).
         \<exists>uuid. example_uuid env a example = Inr uuid
           \<and> uuid \<notin> set (store_keys (digest_of env) (uuid_column a)
                (case output_file of None \<Rightarrow> [] | Some ls \<Rightarrow> ls)))
   \<and> (phase (main env a output_file dataset es) = Finished \<longrightarrow>
         scheduled (main env a output_file dataset es) =
           filter (due env a (set (store_keys (digest_of env) (uuid_column a)
                (case output_file of None \<Rightarrow> [] | Some ls \<Rightarrow> ls)))) dataset)"
proof (cases "load_processed_uuids (digest_of env) output_file (uuid_column a)")
  case (Inl e)
  then show ?thesis
    by (simp add: main_def initial_def)
next
  case (Inr K)
  let ?s = "main env a output_file dataset es"
  have K: "K = set (store_keys (digest_of env) (uuid_column a)
      (case output_file of None \<Rightarrow> [] | Some ls \<Rightarrow> ls))"
    by (rule load_processed_uuids_keys [OF Inr])
  have s: "?s = run env a K es (initial dataset output_file)"
    using Inr by (simp add: main_def)
  have p: "progress env a K dataset ?s"
    unfolding s by (rule progress_run) (rule progress_initial)
  note t = progress_take [OF p]
  have keys: "\<forall>example \<in> set (scheduled ?s).
      \<exists>uuid. example_uuid env a example = Inr uuid \<and> uuid \<notin> K"
    by (rule progress_keys [OF p])
  have fin: "scheduled ?s = filter (due env a K) dataset" if "phase ?s = Finished"
    using p that t by (simp add: progress_def)
  show ?thesis
    using t keys fin unfolding K by blast
qed

theorem rerun_schedules_only_unprocessed_witness:
  "scheduled (main sample_env (sample_args ''uuid'' 2)
      (Some [Parsed (JDict row_A), Parsed (JDict row_B)]) [row_A, row_B, row_C]
      [Main, Main, Main, Main, Done 0, Main]) = [row_C]"
proof -
  let ?s = "main sample_env (sample_args ''uuid'' 2)
      (Some [Parsed (JDict row_A), Parsed (JDict row_B)]) [row_A, row_B, row_C]
      [Main, Main, Main, Main, Done 0, Main]"
  have fin: "phase ?s = Finished"
    by code_simp
  have "scheduled ?s =
      filter (due sample_env (sample_args ''uuid'' 2)
        (set (store_keys (digest_of sample_env) (uuid_column (sample_args ''uuid'' 2))
           (case Some [Parsed (JDict row_A), Parsed (JDict row_B)] of
              None \<Rightarrow> [] | Some ls \<Rightarrow> ls))))
        [row_A, row_B, row_C]"
    using rerun_schedules_only_unprocessed [of sample_env "sample_args ''uuid'' 2"
        "Some [Parsed (JDict row_A), Parsed (JDict row_B)]" "[row_A, row_B, row_C]"
        "[Main, Main, Main, Main, Done 0, Main]"] fin
    by blast
  also have "\<dots> = [row_C]"
    by (simp add: due_def example_uuid_def uuid_of_def)
  finally show ?thesis .
qed

subsection \<open>Keys in the output file\<close>

lemma store_keys_append:
  "store_keys digest col (xs @ ys) = store_keys digest col xs @ store_keys digest col ys"
  by (induction digest col xs rule: store_keys.induct) (auto split: sum.splits)

lemma subscript_build_result:
  "col \<notin> {''generations'', ''finish_reasons'', ''api_metadata''} \<Longrightarrow>
   subscript (JDict (build_result example runs)) col = subscript (JDict example) col"
  by (simp add: build_result_def update_conv')

lemma written_once_initial:
  "written_once env a (case output_file of None \<Rightarrow> [] | Some ls \<Rightarrow> ls)
     (initial dataset output_file)"
  unfolding written_once_def
  by (rule exI [of _ "[]"], rule exI [of _ "[]"]) (simp add: initial_def)

lemma written_once_frame:
  assumes "written_once env a lines0 s"
    and "out_file s' = out_file s" "running s' = running s" "scheduled s' = scheduled s"
  shows "written_once env a lines0 s'"
  using assms by (simp add: written_once_def)

lemma written_once_schedule:
  assumes "written_once env a lines0 s"
  shows "written_once env a lines0 (schedule example s)"
proof -
  from assms obtain ts new where w: "distinct ts"
      "set ts \<subseteq> {..< length (scheduled s)} - running s"
      "out_file s = lines0 @ new"
      "map Inr (store_keys (digest_of env) (uuid_column a) new) =
         map (\<lambda>t. example_uuid env a (scheduled s ! t)) ts"
    by (auto simp: written_once_def)
  have same: "map (\<lambda>t. example_uuid env a ((scheduled s @ [example]) ! t)) ts =
      map (\<lambda>t. example_uuid env a (scheduled s ! t)) ts"
    using w(2) by (auto simp: nth_append)
  have "set ts \<subseteq> {..< length (scheduled s @ [example])}
      - insert (length (scheduled s)) (running s)"
    using w(2) by auto
  then show ?thesis
    unfolding written_once_def schedule_def
    using w(1,3,4) same
    by (intro exI [of _ ts] exI [of _ new]) simp
qed

lemma written_once_main_step:
  assumes "written_once env a lines0 s"
  shows "written_once env a lines0 (main_step env a K s)"
proof -
  have frame: "written_once env a lines0 s'"
    if "out_file s' = out_file s" "running s' = running s" "scheduled s' = scheduled s" for s'
    using assms that by (rule written_once_frame)
  have wait: "written_once env a lines0 (wait_first_completed s)"
    by (rule frame) (simp_all add: wait_first_completed_def)
  have resumed: "written_once env a lines0 (wait_returns fs s)" for fs
    by (rule frame) (simp_all add: wait_returns_def)
  show ?thesis
    using assms wait resumed written_once_schedule [OF assms] frame
    by (auto simp: main_step_def split: phase.splits list.splits sum.splits)
qed

lemma written_once_task_done:
  assumes w: "written_once env a lines0 s"
    and keys: "\<forall>example \<in> set (scheduled s). \<exists>uuid. example_uuid env a example = Inr uuid"
    and col: "uuid_column a \<notin> {''generations'', ''finish_reasons'', ''api_metadata''}"
  shows "written_once env a lines0 (task_done env a t s)"
proof (cases "t \<in> running s \<and> t < length (scheduled s)")
  case False
  then show ?thesis using w by (auto simp: task_done_def)
next
  case True
  from w obtain ts new where ts: "distinct ts"
      "set ts \<subseteq> {..< length (scheduled s)} - running s"
      "out_file s = lines0 @ new"
      "map Inr (store_keys (digest_of env) (uuid_column a) new) =
         map (\<lambda>t. example_uuid env a (scheduled s ! t)) ts"
    by (auto simp: written_once_def)
  let ?ex = "scheduled s ! t"
  obtain r out where pe: "process_example a (agent_of env t) (write_raises_of env t) ?ex
      (out_file s) = (r, out)"
    by (cases "process_example a (agent_of env t) (write_raises_of env t) ?ex (out_file s)")
  have s': "task_done env a t s =
      s\<lparr>out_file := out, running := running s - {t}, uncalled := insert t (uncalled s)\<rparr>"
    using True pe by (simp add: task_done_def)
  from process_example_cases [OF pe]
  show ?thesis
  proof
    assume "out = out_file s"
    then show ?thesis
      unfolding s' written_once_def using ts
      by (intro exI [of _ ts] exI [of _ new]) auto
  next
    assume "\<exists>runs. map (\<lambda>i. get_agent_run (agent_of env t i)) [0 ..< nat (num_generations a)]
          = map Inr runs
        \<and> JNull \<notin> set runs \<and> \<not> write_raises_of env t
        \<and> r = Inr (JDict (build_result ?ex runs))
        \<and> out = out_file s @ [Parsed (JDict (build_result ?ex runs))]"
    then obtain runs where out: "out = out_file s @ [Parsed (JDict (build_result ?ex runs))]"
      by blast
    from keys True obtain uuid where uuid: "example_uuid env a ?ex = Inr uuid"
      by (meson nth_mem)
    then have "store_keys (digest_of env) (uuid_column a) [Parsed (JDict (build_result ?ex runs))]
        = [uuid]"
      using subscript_build_result [OF col, of ?ex runs]
      by (simp add: example_uuid_def uuid_of_def)
    then have k: "map Inr (store_keys (digest_of env) (uuid_column a)
          (new @ [Parsed (JDict (build_result ?ex runs))])) =
        map (\<lambda>t. example_uuid env a (scheduled s ! t)) (ts @ [t])"
      using ts(4) uuid by (simp add: store_keys_append)
    have d: "distinct (ts @ [t])" using ts(1,2) True by auto
    have sub: "set (ts @ [t]) \<subseteq> {..< length (scheduled s)} - (running s - {t})"
      using ts(2) True by auto
    show ?thesis
      unfolding s' written_once_def using d sub k out ts(3)
      by (intro exI [of _ "ts @ [t]"] exI [of _ "new @ [Parsed (JDict (build_result ?ex runs))]"])
         simp
  qed
qed

lemma written_once_done_callback:
  assumes "written_once env a lines0 s"
  shows "written_once env a lines0 (done_callback t s)"
  using assms by (rule written_once_frame) (simp_all add: done_callback_def)

lemma written_once_step:
  assumes "written_once env a lines0 s"
    and "\<forall>example \<in> set (scheduled s). \<exists>uuid. example_uuid env a example = Inr uuid"
    and "uuid_column a \<notin> {''generations'', ''finish_reasons'', ''api_metadata''}"
  shows "written_once env a lines0 (step env a K e s)"
  using assms
  by (cases e)
     (simp_all add: written_once_main_step written_once_task_done written_once_done_callback)

lemma written_once_run:
  assumes "uuid_column a \<notin> {''generations'', ''finish_reasons'', ''api_metadata''}"
  shows "progress env a K dataset s \<Longrightarrow> written_once env a lines0 s \<Longrightarrow>
     written_once env a lines0 (run env a K es s)"
proof (induction es arbitrary: s)
  case Nil
  then show ?case by simp
next
  case (Cons e es)
  have "\<forall>example \<in> set (scheduled s). \<exists>uuid. example_uuid env a example = Inr uuid"
    using progress_keys [OF Cons.prems(1)] by blast
  then have "written_once env a lines0 (step env a K e s)"
    using Cons.prems(2) assms by (intro written_once_step)
  then show ?case
    using Cons.IH progress_step [OF Cons.prems(1)] by simp
qed

lemma progress_distinct:
  assumes "progress env a K dataset s" "distinct (map (example_uuid env a) dataset)"
  shows "distinct (map (example_uuid env a) (scheduled s))"
proof -
  from assms(1) obtain pre where pre: "dataset = pre @ todo s"
      "scheduled s = filter (due env a K) pre"
    by (auto simp: progress_def)
  have "distinct (map (example_uuid env a) pre)"
    using assms(2) pre(1) by (metis distinct_append map_append)
  then show ?thesis
    unfolding pre(2) by (rule distinct_map_filter)
qed

text \<open>
  C4, as the code has it. The set of processed keys is computed once, before the loop,
  and is not extended when a task is created, so a key that occurs twice in the dataset
  is written twice; and the record keeps the row's value in the uuid column only when
  that column is not one of the three the record overwrites. When the startup scan
  succeeds on a file that holds no key twice, the rows of the dataset have pairwise
  distinct keys and the uuid column is none of \<open>generations\<close>, \<open>finish_reasons\<close> and
  \<open>api_metadata\<close>, then under every timing and at every moment of the run no key occurs
  twice in the output file.
\<close>

theorem keys_unique_for_distinct_input:
  assumes load: "load_processed_uuids (digest_of env) output_file (uuid_column a) = Inr K"
    and old: "distinct (store_keys (digest_of env) (uuid_column a)
                 (case output_file of None \<Rightarrow> [] | Some ls \<Rightarrow> ls))"
    and input: "distinct (map (example_uuid env a) dataset)"
    and col: "uuid_column a \<notin> {''generations'', ''finish_reasons'', ''api_metadata''}"
  shows "distinct (store_keys (digest_of env) (uuid_column a)
           (out_file (main env a output_file dataset es)))"
proof -
  let ?s = "main env a output_file dataset es"
  let ?lines0 = "case output_file of None \<Rightarrow> [] | Some ls \<Rightarrow> ls"
  let ?keys = "store_keys (digest_of env) (uuid_column a)"
  have s: "?s = run env a K es (initial dataset output_file)"
    using load by (simp add: main_def)
  have p: "progress env a K dataset ?s"
    unfolding s by (rule progress_run) (rule progress_initial)
  have "written_once env a ?lines0 ?s"
    unfolding s
    by (rule written_once_run [OF col progress_initial written_once_initial])
  then obtain ts new where ts: "distinct ts"
      "set ts \<subseteq> {..< length (scheduled ?s)} - running ?s"
      "out_file ?s = ?lines0 @ new"
      "map Inr (?keys new) = map (\<lambda>t. example_uuid env a (scheduled ?s ! t)) ts"
    unfolding written_once_def by blast
  have K: "K = set (?keys ?lines0)"
    by (rule load_processed_uuids_keys [OF load])
  have sched: "distinct (map (example_uuid env a) (scheduled ?s))"
    by (rule progress_distinct [OF p input])
  have "inj_on (\<lambda>t. example_uuid env a (scheduled ?s ! t)) (set ts)"
  proof (rule inj_onI)
    fix t u assume tu: "t \<in> set ts" "u \<in> set ts"
      and eq: "example_uuid env a (scheduled ?s ! t) = example_uuid env a (scheduled ?s ! u)"
    have lt: "t < length (scheduled ?s)" "u < length (scheduled ?s)"
      using tu ts(2) by auto
    then show "t = u"
      using nth_eq_iff_index_eq [OF sched, of t u] eq by simp
  qed
  then have "distinct (map (\<lambda>t. example_uuid env a (scheduled ?s ! t)) ts)"
    using ts(1) by (simp add: distinct_map)
  then have "distinct (map Inr (?keys new) :: (exn + 'a) list)"
    using ts(4) by simp
  then have new: "distinct (?keys new)"
    by (simp add: distinct_map)
  have disjoint: "set (?keys ?lines0) \<inter> set (?keys new) = {}"
  proof (rule ccontr)
    assume "set (?keys ?lines0) \<inter> set (?keys new) \<noteq> {}"
    then obtain k where k: "k \<in> K" "k \<in> set (?keys new)"
      using K by auto
    then have "Inr k \<in> set (map Inr (?keys new) :: (exn + 'a) list)"
      by simp
    then obtain t where t: "t \<in> set ts" "example_uuid env a (scheduled ?s ! t) = Inr k"
      unfolding ts(4) by auto
    have "scheduled ?s ! t \<in> set (scheduled ?s)"
      using t(1) ts(2) by auto
    then show False
      using progress_keys [OF p] t(2) k(1) by auto
  qed
  show ?thesis
    unfolding ts(3) store_keys_append using old new disjoint by simp
qed

theorem keys_unique_for_distinct_input_witness:
  "store_keys Inr ''uuid''
     (out_file (main sample_env (sample_args ''uuid'' 1) (Some [Parsed (JDict row_A)])
        [row_A, row_B] [Main, Main, Main, Done 0, Main])) = [JStr ''A'', JStr ''B'']
   \<and> distinct (store_keys Inr ''uuid''
     (out_file (main sample_env (sample_args ''uuid'' 1) (Some [Parsed (JDict row_A)])
        [row_A, row_B] [Main, Main, Main, Done 0, Main])))"
proof
  show "store_keys Inr ''uuid''
     (out_file (main sample_env (sample_args ''uuid'' 1) (Some [Parsed (JDict row_A)])
        [row_A, row_B] [Main, Main, Main, Done 0, Main])) = [JStr ''A'', JStr ''B'']"
    by code_simp
  have load: "load_processed_uuids (digest_of sample_env) (Some [Parsed (JDict row_A)])
      (uuid_column (sample_args ''uuid'' 1)) = Inr {JStr ''A''}"
    by (simp add: load_processed_uuids_def uuid_of_def)
  have old: "distinct (store_keys (digest_of sample_env) (uuid_column (sample_args ''uuid'' 1))
      (case Some [Parsed (JDict row_A)] of None \<Rightarrow> [] | Some ls \<Rightarrow> ls))"
    by (simp add: uuid_of_def)
  have input: "distinct (map (example_uuid sample_env (sample_args ''uuid'' 1)) [row_A, row_B])"
    by (simp add: example_uuid_def uuid_of_def)
  have col: "uuid_column (sample_args ''uuid'' 1)
      \<notin> {''generations'', ''finish_reasons'', ''api_metadata''}"
    by simp
  show "distinct (store_keys Inr ''uuid''
     (out_file (main sample_env (sample_args ''uuid'' 1) (Some [Parsed (JDict row_A)])
        [row_A, row_B] [Main, Main, Main, Done 0, Main])))"
    using keys_unique_for_distinct_input [OF load old input col,
        of "[Main, Main, Main, Done 0, Main]"]
    by simp
qed

text \<open>
  Two runs on an empty output file, each to its end. In the first the dataset holds the
  same row twice and both copies are written. In the second the rows have distinct keys
  in the column \<open>finish_reasons\<close>, which every record overwrites.
\<close>

theorem keys_unique_counterexample:
  "phase (main sample_env (sample_args ''uuid'' 1) None [row_A, row_A]
      [Main, Main, Done 0, Main, Main, Main, Done 1, Main]) = Finished
   \<and> store_keys Inr ''uuid''
       (out_file (main sample_env (sample_args ''uuid'' 1) None [row_A, row_A]
          [Main, Main, Done 0, Main, Main, Main, Done 1, Main])) = [JStr ''A'', JStr ''A'']
   \<and> distinct (map (example_uuid sample_env (sample_args ''finish_reasons'' 1)) [row_A, row_B])
   \<and> phase (main sample_env (sample_args ''finish_reasons'' 1) None [row_A, row_B]
      [Main, Main, Done 0, Main, Main, Main, Done 1, Main]) = Finished
   \<and> store_keys Inr ''finish_reasons''
       (out_file (main sample_env (sample_args ''finish_reasons'' 1) None [row_A, row_B]
          [Main, Main, Done 0, Main, Main, Main, Done 1, Main])) =
       [JList [JNull], JList [JNull]]"
proof (intro conjI)
  show "distinct (map (example_uuid sample_env (sample_args ''finish_reasons'' 1))
      [row_A, row_B])"
    by (simp add: example_uuid_def uuid_of_def)
qed code_simp+

end
